theory Spec2Isabelle
  imports Main "HOL-Library.Word"
begin

section \<open>TrustVault: the encrypted reputation ledger\<close>

text \<open>
  The ledger is the Solidity contract \<^verbatim>\<open>TrustVault\<close>. Its storage is four variables:
  \<^verbatim>\<open>userScores\<close>, \<^verbatim>\<open>userRatings\<close>, \<^verbatim>\<open>ratings\<close> and \<^verbatim>\<open>totalRatings\<close>. Solidity mappings
  are total (an absent key reads as the zero value), so they are total functions here.
  An \<^verbatim>\<open>address\<close> is a 160-bit word, \<^verbatim>\<open>address(0)\<close> is \<open>0\<close>. The \<^verbatim>\<open>uint256\<close> counters
  \<^verbatim>\<open>totalRatings\<close> and \<^verbatim>\<open>publicCount\<close> only ever grow by one per transaction; they are
  natural numbers (the checked-arithmetic panic of Solidity 0.8 at \<open>2^256 - 1\<close> needs
  that many transactions first). The plaintext of a \<^verbatim>\<open>euint32\<close> is a 32-bit word, whose
  addition wraps around as \<^verbatim>\<open>FHE.add\<close> does.
\<close>

type_synonym address = "160 word"

text \<open>A \<^verbatim>\<open>euint32\<close> is a \<^verbatim>\<open>bytes32\<close> handle; the zero handle is the uninitialised one.\<close>

type_synonym euint32 = nat

subsection \<open>The encryption capability\<close>

text \<open>
  Modelled from the spec: the FHE library (\<^verbatim>\<open>@fhevm/solidity/lib/FHE.sol\<close>) and its access
  control list are an external dependency of the contract and not part of the sources.
  The spec describes the capability as \<^verbatim>\<open>encrypt\<close>, \<^verbatim>\<open>encrypt_constant\<close>,
  \<^verbatim>\<open>homomorphic_add\<close> (which yields a new handle each time), \<^verbatim>\<open>grant_decrypt\<close> and
  \<^verbatim>\<open>decrypt\<close>, and asks for a non-opaque stand-in (identity encryption) in tests. The
  stand-in below keeps, for every handle it has issued, the plaintext behind it, and the
  set of (handle, identity) pairs that were granted decryption. Every operation that
  produces a ciphertext issues the next unused handle; no call of the stand-in fails.
\<close>

record fhevm =
  plaintexts :: "euint32 \<Rightarrow> 32 word option"
  acl :: "(euint32 \<times> address) set"
  issued :: nat

definition new_handle :: "32 word \<Rightarrow> fhevm \<Rightarrow> euint32 \<times> fhevm" where
  "new_handle v f =
     (Suc (issued f),
      f\<lparr>plaintexts := (plaintexts f)(Suc (issued f) \<mapsto> v), issued := Suc (issued f)\<rparr>)"

text \<open>An operand without a ciphertext behind it reads as an encryption of 0, which is
  what the library does with an uninitialised operand.\<close>

definition clear_of :: "fhevm \<Rightarrow> euint32 \<Rightarrow> 32 word" where
  "clear_of f h = (case plaintexts f h of None \<Rightarrow> 0 | Some v \<Rightarrow> v)"

text \<open>\<^verbatim>\<open>FHE.fromExternal(encryptedScore, inputProof)\<close>: under identity encryption the external
  input is its plaintext.\<close>

definition FHE_fromExternal :: "32 word \<Rightarrow> fhevm \<Rightarrow> euint32 \<times> fhevm" where
  "FHE_fromExternal v f = new_handle v f"

definition FHE_asEuint32 :: "32 word \<Rightarrow> fhevm \<Rightarrow> euint32 \<times> fhevm" where
  "FHE_asEuint32 v f = new_handle v f"

definition FHE_add :: "euint32 \<Rightarrow> euint32 \<Rightarrow> fhevm \<Rightarrow> euint32 \<times> fhevm" where
  "FHE_add a b f = new_handle (clear_of f a + clear_of f b) f"

definition FHE_allow :: "euint32 \<Rightarrow> address \<Rightarrow> fhevm \<Rightarrow> fhevm" where
  "FHE_allow h a f = f\<lparr>acl := insert (h, a) (acl f)\<rparr>"

definition FHE_allowThis :: "address \<Rightarrow> euint32 \<Rightarrow> fhevm \<Rightarrow> fhevm" where
  "FHE_allowThis this h f = FHE_allow h this f"

definition isAllowed :: "fhevm \<Rightarrow> euint32 \<Rightarrow> address \<Rightarrow> bool" where
  "isAllowed f h a = ((h, a) \<in> acl f)"

text \<open>The plaintext oracle of the stand-in: what a handle decrypts to.\<close>

definition decrypt :: "fhevm \<Rightarrow> euint32 \<Rightarrow> 32 word option" where
  "decrypt f h = plaintexts f h"

subsection \<open>Storage of the contract\<close>

record Rating =
  rater :: address
  encryptedScore :: euint32
  timestamp :: nat

record UserScore =
  encryptedTotalScore :: euint32
  encryptedCount :: euint32
  publicCount :: nat
  authorizedViewers :: "address \<Rightarrow> bool"

datatype event =
    RatingSubmitted nat address address nat
  | ViewerAuthorized address address
  | ViewerRevoked address address

text \<open>The four storage variables, the state of the encryption capability the contract
  calls into, the log of emitted events, and the contract's own address
  (\<^verbatim>\<open>address(this)\<close>, the target of \<^verbatim>\<open>FHE.allowThis\<close>).\<close>

record TrustVault =
  userScores :: "address \<Rightarrow> UserScore"
  userRatings :: "address \<Rightarrow> nat list"
  ratings :: "nat \<Rightarrow> Rating"
  totalRatings :: nat
  fhe :: fhevm
  events :: "event list"
  this :: address

definition init :: "address \<Rightarrow> TrustVault" where
  "init self =
     \<lparr>userScores = (\<lambda>_. \<lparr>encryptedTotalScore = 0, encryptedCount = 0, publicCount = 0,
                          authorizedViewers = (\<lambda>_. False)\<rparr>),
      userRatings = (\<lambda>_. []),
      ratings = (\<lambda>_. \<lparr>rater = 0, encryptedScore = 0, timestamp = 0\<rparr>),
      totalRatings = 0,
      fhe = \<lparr>plaintexts = (\<lambda>_. None), acl = {}, issued = 0\<rparr>,
      events = [],
      this = self\<rparr>"

text \<open>The revert reasons of the contract's \<^verbatim>\<open>require\<close> statements. In the spec's words:
  InvalidSubject, SelfRatingRejected, InvalidViewer, SelfAuthorizationRejected,
  NoAggregateYet, AlreadyAuthorized, NotAuthorized, NotFound.\<close>

datatype error =
    Invalid_user_address
  | Cannot_rate_yourself
  | Invalid_viewer_address
  | Cannot_authorize_yourself
  | No_scores_to_authorize
  | Viewer_already_authorized
  | Viewer_not_authorized
  | Rating_does_not_exist

subsection \<open>The functions of the contract\<close>

text \<open>
  A call either reverts, \<open>Inl (reason, s)\<close>, where \<open>s\<close> is the storage as the body had
  left it when the \<^verbatim>\<open>require\<close> failed, or returns, \<open>Inr (value, s)\<close>. The first argument
  is \<^verbatim>\<open>msg.sender\<close>; \<open>now\<close> is \<^verbatim>\<open>block.timestamp\<close>; \<open>externalScore\<close> is the
  source's parameter \<^verbatim>\<open>encryptedScore\<close> together with its \<^verbatim>\<open>inputProof\<close>.
\<close>

definition submitRating ::
  "address \<Rightarrow> nat \<Rightarrow> address \<Rightarrow> 32 word \<Rightarrow> TrustVault \<Rightarrow> error \<times> TrustVault + nat \<times> TrustVault"
where
  "submitRating sender now ratedUser externalScore st =
    (if ratedUser = 0 then Inl (Invalid_user_address, st)
     else if ratedUser = sender then Inl (Cannot_rate_yourself, st)
     else
       let ratingId = totalRatings st;
           st1 = st\<lparr>totalRatings := totalRatings st + 1\<rparr>;
           (encryptedEuint32, f1) = FHE_fromExternal externalScore (fhe st1);
           f2 = FHE_allowThis (this st1) encryptedEuint32 f1;
           f3 = FHE_allow encryptedEuint32 sender f2;
           st2 = st1\<lparr>ratings := (ratings st1)
                   (ratingId := \<lparr>rater = sender, encryptedScore = encryptedEuint32,
                                 timestamp = now\<rparr>)\<rparr>;
           st3 = st2\<lparr>userRatings := (userRatings st2)
                   (ratedUser := userRatings st2 ratedUser @ [ratingId])\<rparr>;
           score = userScores st3 ratedUser;
           (score1, f4) =
             (if publicCount score = 0 then
                let (one, g) = FHE_asEuint32 1 f3
                in (score\<lparr>encryptedTotalScore := encryptedEuint32, encryptedCount := one\<rparr>, g)
              else
                let (total, g1) = FHE_add (encryptedTotalScore score) encryptedEuint32 f3;
                    (one, g2) = FHE_asEuint32 1 g1;
                    (count, g3) = FHE_add (encryptedCount score) one g2
                in (score\<lparr>encryptedTotalScore := total, encryptedCount := count\<rparr>, g3));
           f5 = FHE_allowThis (this st3) (encryptedTotalScore score1) f4;
           f6 = FHE_allowThis (this st3) (encryptedCount score1) f5;
           score2 = score1\<lparr>publicCount := publicCount score1 + 1\<rparr>;
           f7 = FHE_allow (encryptedTotalScore score2) ratedUser f6;
           f8 = FHE_allow (encryptedCount score2) ratedUser f7;
           st4 = st3\<lparr>userScores := (userScores st3)(ratedUser := score2), fhe := f8,
                     events := events st3 @ [RatingSubmitted ratingId ratedUser sender now]\<rparr>
       in Inr (ratingId, st4))"

definition getEncryptedScore :: "address \<Rightarrow> TrustVault \<Rightarrow> euint32 \<times> euint32 \<times> nat" where
  "getEncryptedScore user st =
     (let score = userScores st user
      in (encryptedTotalScore score, encryptedCount score, publicCount score))"

definition authorizeViewer ::
  "address \<Rightarrow> address \<Rightarrow> TrustVault \<Rightarrow> error \<times> TrustVault + unit \<times> TrustVault"
where
  "authorizeViewer sender viewer st =
    (if viewer = 0 then Inl (Invalid_viewer_address, st)
     else if viewer = sender then Inl (Cannot_authorize_yourself, st)
     else
       let score = userScores st sender in
       if \<not> publicCount score > 0 then Inl (No_scores_to_authorize, st)
       else if authorizedViewers score viewer then Inl (Viewer_already_authorized, st)
       else
         let score1 = score\<lparr>authorizedViewers := (authorizedViewers score)(viewer := True)\<rparr>;
             f1 = FHE_allow (encryptedTotalScore score1) viewer (fhe st);
             f2 = FHE_allow (encryptedCount score1) viewer f1
         in Inr ((), st\<lparr>userScores := (userScores st)(sender := score1), fhe := f2,
                        events := events st @ [ViewerAuthorized sender viewer]\<rparr>))"

definition revokeViewer ::
  "address \<Rightarrow> address \<Rightarrow> TrustVault \<Rightarrow> error \<times> TrustVault + unit \<times> TrustVault"
where
  "revokeViewer sender viewer st =
    (let score = userScores st sender in
     if \<not> authorizedViewers score viewer then Inl (Viewer_not_authorized, st)
     else
       let score1 = score\<lparr>authorizedViewers := (authorizedViewers score)(viewer := False)\<rparr>
       in Inr ((), st\<lparr>userScores := (userScores st)(sender := score1),
                      events := events st @ [ViewerRevoked sender viewer]\<rparr>))"

definition isAuthorized :: "address \<Rightarrow> address \<Rightarrow> TrustVault \<Rightarrow> bool" where
  "isAuthorized user viewer st =
     (if user = viewer then True else authorizedViewers (userScores st user) viewer)"

definition getUserRatings :: "address \<Rightarrow> TrustVault \<Rightarrow> nat list" where
  "getUserRatings user st = userRatings st user"

definition getRating ::
  "nat \<Rightarrow> TrustVault \<Rightarrow> error \<times> TrustVault + (address \<times> euint32 \<times> nat) \<times> TrustVault"
where
  "getRating ratingId st =
     (let rating = ratings st ratingId in
      if \<not> rater rating \<noteq> 0 then Inl (Rating_does_not_exist, st)
      else Inr ((rater rating, encryptedScore rating, timestamp rating), st))"

subsection \<open>Transactions\<close>

text \<open>
  The state-changing entry points as transactions. A transaction that reverts leaves the
  storage of the chain as it was before; one that returns commits the storage it reached.
\<close>

datatype call =
    SubmitRating address nat address "32 word"
  | AuthorizeViewer address address
  | RevokeViewer address address

fun exec :: "call \<Rightarrow> TrustVault \<Rightarrow> error \<times> TrustVault + TrustVault" where
  "exec (SubmitRating sender now ratedUser score) st =
     (case submitRating sender now ratedUser score st of
        Inl e \<Rightarrow> Inl e | Inr (_, st') \<Rightarrow> Inr st')"
| "exec (AuthorizeViewer sender viewer) st =
     (case authorizeViewer sender viewer st of
        Inl e \<Rightarrow> Inl e | Inr (_, st') \<Rightarrow> Inr st')"
| "exec (RevokeViewer sender viewer) st =
     (case revokeViewer sender viewer st of
        Inl e \<Rightarrow> Inl e | Inr (_, st') \<Rightarrow> Inr st')"

definition transact :: "call \<Rightarrow> TrustVault \<Rightarrow> TrustVault" where
  "transact c st = (case exec c st of Inl _ \<Rightarrow> st | Inr st' \<Rightarrow> st')"

fun run :: "call list \<Rightarrow> TrustVault \<Rightarrow> TrustVault" where
  "run [] st = st"
| "run (c # cs) st = run cs (transact c st)"

text \<open>
  The submissions of a run that were accepted (did not revert), in the order they were
  made, each with the rated user and the plaintext behind the submitted ciphertext.
\<close>

fun accepted :: "call list \<Rightarrow> TrustVault \<Rightarrow> (address \<times> 32 word) list" where
  "accepted [] st = []"
| "accepted (c # cs) st =
     (case (c, exec c st) of
        (SubmitRating sender now ratedUser score, Inr _) \<Rightarrow> [(ratedUser, score)]
      | _ \<Rightarrow> [])
     @ accepted cs (transact c st)"

definition scores_for :: "address \<Rightarrow> call list \<Rightarrow> TrustVault \<Rightarrow> 32 word list" where
  "scores_for user cs st = map snd (filter (\<lambda>p. fst p = user) (accepted cs st))"

text \<open>Invariants of the storage, used in the proofs below. The first relates a subject's
  aggregate to the scores \<open>ss\<close> accepted for it so far; the second relates the rating
  index to the rated users \<open>rs\<close> of all accepted submissions so far.\<close>

definition aggregate_inv :: "address \<Rightarrow> 32 word list \<Rightarrow> TrustVault \<Rightarrow> bool" where
  "aggregate_inv user ss st =
     (let score = userScores st user in
      publicCount score = length ss
      \<and> encryptedTotalScore score \<le> issued (fhe st)
      \<and> encryptedCount score \<le> issued (fhe st)
      \<and> (ss = [] \<longrightarrow> encryptedTotalScore score = 0 \<and> encryptedCount score = 0)
      \<and> (ss \<noteq> [] \<longrightarrow>
           encryptedTotalScore score \<noteq> 0 \<and> encryptedCount score \<noteq> 0
           \<and> plaintexts (fhe st) (encryptedTotalScore score) = Some (sum_list ss)
           \<and> plaintexts (fhe st) (encryptedCount score) = Some (of_nat (length ss))))"

definition index_inv :: "address list \<Rightarrow> TrustVault \<Rightarrow> bool" where
  "index_inv rs st =
     (totalRatings st = length rs
      \<and> (\<forall>user. userRatings st user =
             map fst (filter (\<lambda>p. snd p = user) (enumerate 0 rs))))"

subsection \<open>What a single call does\<close>

lemmas fhe_defs = FHE_fromExternal_def FHE_asEuint32_def FHE_add_def FHE_allow_def
  FHE_allowThis_def new_handle_def

lemma submitRating_reverts:
  "submitRating s now u x st = Inl (e, st') \<Longrightarrow> st' = st"
  by (simp add: submitRating_def Let_def split: if_splits prod.splits)

lemma submitRating_returns:
  "u \<noteq> 0 \<Longrightarrow> u \<noteq> s \<Longrightarrow> \<exists>st'. submitRating s now u x st = Inr (totalRatings st, st')"
  by (simp add: submitRating_def Let_def split: prod.splits)

lemma submitRating_Inr_valid:
  "submitRating s now u x st = Inr r \<Longrightarrow> u \<noteq> 0 \<and> u \<noteq> s"
  by (simp add: submitRating_def Let_def split: if_splits)

lemma submitRating_storage:
  assumes "submitRating s now u x st = Inr (i, st')"
  shows "i = totalRatings st"
    and "totalRatings st' = Suc (totalRatings st)"
    and "userRatings st' = (userRatings st)(u := userRatings st u @ [totalRatings st])"
    and "this st' = this st"
    and "events st' = events st @ [RatingSubmitted (totalRatings st) u s now]"
    and "b \<noteq> u \<Longrightarrow> userScores st' b = userScores st b"
    and "publicCount (userScores st' u) = Suc (publicCount (userScores st u))"
    and "authorizedViewers (userScores st' u) = authorizedViewers (userScores st u)"
    and "ratings st' = (ratings st)(totalRatings st :=
           \<lparr>rater = s, encryptedScore = Suc (issued (fhe st)), timestamp = now\<rparr>)"
  using assms
  by (simp_all add: submitRating_def Let_def fhe_defs split: if_splits prod.splits) auto

lemma submitRating_first:
  assumes "submitRating s now u x st = Inr (i, st')" "publicCount (userScores st u) = 0"
  shows "encryptedTotalScore (userScores st' u) = Suc (issued (fhe st))"
    and "encryptedCount (userScores st' u) = Suc (Suc (issued (fhe st)))"
    and "plaintexts (fhe st') = (plaintexts (fhe st))
           (Suc (issued (fhe st)) \<mapsto> x, Suc (Suc (issued (fhe st))) \<mapsto> 1)"
  using assms
  by (auto simp add: submitRating_def Let_def fhe_defs split: if_splits prod.splits)

lemma submitRating_later:
  assumes "submitRating s now u x st = Inr (i, st')" "publicCount (userScores st u) \<noteq> 0"
    and "encryptedTotalScore (userScores st u) \<le> issued (fhe st)"
    and "encryptedCount (userScores st u) \<le> issued (fhe st)"
  shows "encryptedTotalScore (userScores st' u) = issued (fhe st) + 2"
    and "encryptedCount (userScores st' u) = issued (fhe st) + 4"
    and "plaintexts (fhe st') (issued (fhe st) + 2) =
           Some (clear_of (fhe st) (encryptedTotalScore (userScores st u)) + x)"
    and "plaintexts (fhe st') (issued (fhe st) + 4) =
           Some (clear_of (fhe st) (encryptedCount (userScores st u)) + 1)"
  using assms
  by (auto simp add: submitRating_def Let_def fhe_defs clear_of_def split: if_splits prod.splits)

lemma submitRating_fhe:
  assumes "submitRating s now u x st = Inr (i, st')"
  shows "issued (fhe st) \<le> issued (fhe st')"
    and "h \<le> issued (fhe st) \<Longrightarrow> plaintexts (fhe st') h = plaintexts (fhe st) h"
    and "encryptedTotalScore (userScores st' u) \<le> issued (fhe st')"
    and "encryptedCount (userScores st' u) \<le> issued (fhe st')"
    and "encryptedTotalScore (userScores st' u) \<noteq> 0"
    and "encryptedCount (userScores st' u) \<noteq> 0"
    and "acl (fhe st) \<subseteq> acl (fhe st')"
    and "isAllowed (fhe st') (encryptedTotalScore (userScores st' u)) (this st)"
    and "isAllowed (fhe st') (encryptedCount (userScores st' u)) (this st)"
    and "isAllowed (fhe st') (encryptedTotalScore (userScores st' u)) u"
    and "isAllowed (fhe st') (encryptedCount (userScores st' u)) u"
  using assms
  by (auto simp add: submitRating_def Let_def fhe_defs isAllowed_def split: if_splits prod.splits)

lemma authorizeViewer_reverts:
  "authorizeViewer s v st = Inl (e, st') \<Longrightarrow> st' = st"
  by (simp add: authorizeViewer_def Let_def split: if_splits)

lemma authorizeViewer_storage:
  assumes "authorizeViewer s v st = Inr (r, st')"
  shows "v \<noteq> 0" and "v \<noteq> s" and "publicCount (userScores st s) \<noteq> 0"
    and "\<not> authorizedViewers (userScores st s) v"
    and "userScores st' = (userScores st)(s := (userScores st s)
           \<lparr>authorizedViewers := (authorizedViewers (userScores st s))(v := True)\<rparr>)"
    and "fhe st' = (fhe st)\<lparr>acl := insert (encryptedCount (userScores st s), v)
           (insert (encryptedTotalScore (userScores st s), v) (acl (fhe st)))\<rparr>"
    and "events st' = events st @ [ViewerAuthorized s v]"
    and "userRatings st' = userRatings st" and "ratings st' = ratings st"
    and "totalRatings st' = totalRatings st" and "this st' = this st"
  using assms
  by (auto simp add: authorizeViewer_def Let_def FHE_allow_def split: if_splits)

lemma revokeViewer_reverts:
  "revokeViewer s v st = Inl (e, st') \<Longrightarrow> st' = st"
  by (simp add: revokeViewer_def Let_def split: if_splits)

lemma revokeViewer_storage:
  assumes "revokeViewer s v st = Inr (r, st')"
  shows "authorizedViewers (userScores st s) v"
    and "userScores st' = (userScores st)(s := (userScores st s)
           \<lparr>authorizedViewers := (authorizedViewers (userScores st s))(v := False)\<rparr>)"
    and "fhe st' = fhe st"
    and "events st' = events st @ [ViewerRevoked s v]"
    and "userRatings st' = userRatings st" and "ratings st' = ratings st"
    and "totalRatings st' = totalRatings st" and "this st' = this st"
  using assms
  by (auto simp add: revokeViewer_def Let_def split: if_splits)

lemma getRating_reverts:
  "getRating i st = Inl (e, st') \<Longrightarrow> st' = st"
  by (simp add: getRating_def Let_def split: if_splits)

lemma exec_reverts: "exec c st = Inl (e, st') \<Longrightarrow> st' = st"
  by (cases c)
     (auto split: sum.splits prod.splits
           dest: submitRating_reverts authorizeViewer_reverts revokeViewer_reverts)

lemma transact_reverted: "exec c st = Inl r \<Longrightarrow> transact c st = st"
  by (simp add: transact_def)

lemma transact_returned: "exec c st = Inr st' \<Longrightarrow> transact c st = st'"
  by (simp add: transact_def)

lemma run_append: "run (cs @ ds) st = run ds (run cs st)"
  by (induction cs arbitrary: st) simp_all

lemma run_snoc: "run (cs @ [c]) st = transact c (run cs st)"
  by (simp add: run_append)

subsection \<open>Runs\<close>

lemma transact_cases:
  obtains (reverted) "transact c st = st" "\<exists>r. exec c st = Inl r"
  | (rated) s now u x i where "c = SubmitRating s now u x"
      "submitRating s now u x st = Inr (i, transact c st)"
  | (authorized) s v where "c = AuthorizeViewer s v"
      "authorizeViewer s v st = Inr ((), transact c st)"
  | (revoked) s v where "c = RevokeViewer s v"
      "revokeViewer s v st = Inr ((), transact c st)"
proof (cases "exec c st")
  case (Inl r)
  then show ?thesis using reverted by (simp add: transact_def)
next
  case (Inr st')
  then have t: "transact c st = st'" by (simp add: transact_def)
  show ?thesis
  proof (cases c)
    case (SubmitRating s now u x)
    then show ?thesis using Inr t rated [of s now u x]
      by (auto split: sum.splits prod.splits)
  next
    case (AuthorizeViewer s v)
    then show ?thesis using Inr t authorized [of s v]
      by (auto split: sum.splits prod.splits)
  next
    case (RevokeViewer s v)
    then show ?thesis using Inr t revoked [of s v]
      by (auto split: sum.splits prod.splits)
  qed
qed

lemma run_invariant:
  assumes "P st" and "\<And>c st. P st \<Longrightarrow> P (transact c st)"
  shows "P (run cs st)"
  using assms(1) by (induction cs arbitrary: st) (simp_all add: assms(2))

lemma accepted_single_reverted:
  "exec c st = Inl r \<Longrightarrow> accepted [c] st = []"
  by (cases c) (simp_all split: sum.splits)

lemma accepted_single_rated:
  "submitRating s now u x st = Inr r \<Longrightarrow> accepted [SubmitRating s now u x] st = [(u, x)]"
  by (cases r) simp

lemma accepted_single_authorize: "accepted [AuthorizeViewer s v] st = []"
  by (simp split: sum.splits prod.splits)

lemma accepted_single_revoke: "accepted [RevokeViewer s v] st = []"
  by (simp split: sum.splits prod.splits)

lemma accepted_Cons: "accepted (c # cs) st = accepted [c] st @ accepted cs (transact c st)"
  by simp

lemma accepted_append: "accepted (cs @ ds) st = accepted cs st @ accepted ds (run cs st)"
  by (induction cs arbitrary: st) simp_all

lemma scores_for_Cons:
  "scores_for u (c # cs) st = scores_for u [c] st @ scores_for u cs (transact c st)"
  by (simp add: scores_for_def)

subsection \<open>The aggregate of a subject\<close>

lemma aggregate_inv_init: "aggregate_inv u [] (init self)"
  by (simp add: aggregate_inv_def init_def)

lemma aggregate_inv_step:
  assumes "aggregate_inv u ss st"
  shows "aggregate_inv u (ss @ scores_for u [c] st) (transact c st)"
proof (cases c st rule: transact_cases)
  case reverted
  then show ?thesis
    using assms by (auto simp add: scores_for_def accepted_single_reverted simp del: accepted.simps)
next
  case (rated s now r x i)
  note sub = rated(2)
  have acc: "accepted [c] st = [(r, x)]"
    unfolding rated(1) by (rule accepted_single_rated [OF sub])
  show ?thesis
  proof (cases "r = u")
    case False
    have "scores_for u [c] st = []"
      using False by (simp add: scores_for_def acc del: accepted.simps)
    moreover have "userScores (transact c st) u = userScores st u"
      using submitRating_storage(6) [OF sub] False by simp
    moreover have "issued (fhe st) \<le> issued (fhe (transact c st))"
      using submitRating_fhe(1) [OF sub] .
    moreover have "\<And>h. h \<le> issued (fhe st) \<Longrightarrow> plaintexts (fhe (transact c st)) h = plaintexts (fhe st) h"
      using submitRating_fhe(2) [OF sub] .
    ultimately show ?thesis
      using assms by (auto simp add: aggregate_inv_def Let_def)
  next
    case True
    have sc: "scores_for u [c] st = [x]"
      using True by (simp add: scores_for_def acc del: accepted.simps)
    have pc: "publicCount (userScores (transact c st) u) = Suc (publicCount (userScores st u))"
      using submitRating_storage(7) [OF sub] True by simp
    have le: "encryptedTotalScore (userScores (transact c st) u) \<le> issued (fhe (transact c st))"
        "encryptedCount (userScores (transact c st) u) \<le> issued (fhe (transact c st))"
        "encryptedTotalScore (userScores (transact c st) u) \<noteq> 0"
        "encryptedCount (userScores (transact c st) u) \<noteq> 0"
      using submitRating_fhe(3-6) [OF sub] True by simp_all
    show ?thesis
    proof (cases "ss = []")
      case True
      then have z: "publicCount (userScores st r) = 0"
        using assms \<open>r = u\<close> by (simp add: aggregate_inv_def Let_def)
      show ?thesis
        using submitRating_first [OF sub z] pc le True \<open>r = u\<close> sc assms
        by (simp add: aggregate_inv_def Let_def)
    next
      case False
      then have nz: "publicCount (userScores st r) \<noteq> 0"
        and l1: "encryptedTotalScore (userScores st r) \<le> issued (fhe st)"
        and l2: "encryptedCount (userScores st r) \<le> issued (fhe st)"
        and p1: "clear_of (fhe st) (encryptedTotalScore (userScores st r)) = sum_list ss"
        and p2: "clear_of (fhe st) (encryptedCount (userScores st r)) = of_nat (length ss)"
        using assms \<open>r = u\<close> by (simp_all add: aggregate_inv_def Let_def clear_of_def)
      show ?thesis
        using submitRating_later [OF sub nz l1 l2] pc le False \<open>r = u\<close> sc assms p1 p2
        by (simp add: aggregate_inv_def Let_def)
    qed
  qed
next
  case (authorized s v)
  have "scores_for u [c] st = []"
    by (simp add: scores_for_def authorized(1) accepted_single_authorize del: accepted.simps)
  then show ?thesis
    using assms authorizeViewer_storage(5,6) [OF authorized(2)]
    by (auto simp add: aggregate_inv_def Let_def)
next
  case (revoked s v)
  have "scores_for u [c] st = []"
    by (simp add: scores_for_def revoked(1) accepted_single_revoke del: accepted.simps)
  then show ?thesis
    using assms revokeViewer_storage(2,3) [OF revoked(2)]
    by (auto simp add: aggregate_inv_def Let_def)
qed

lemma aggregate_inv_run:
  "aggregate_inv u ss st \<Longrightarrow> aggregate_inv u (ss @ scores_for u cs st) (run cs st)"
proof (induction cs arbitrary: ss st)
  case Nil
  then show ?case by (simp add: scores_for_def)
next
  case (Cons c cs)
  from Cons.IH [OF aggregate_inv_step [OF Cons.prems, of c]]
  show ?case by (simp add: scores_for_Cons [of u c cs] del: accepted.simps)
qed

lemma aggregate_inv_reachable:
  "aggregate_inv u (scores_for u cs (init self)) (run cs (init self))"
  using aggregate_inv_run [OF aggregate_inv_init, of u cs self] by simp

lemma accepted_SubmitRating:
  "accepted (SubmitRating s now u x # cs) st =
     (if u \<noteq> 0 \<and> u \<noteq> s then [(u, x)] else [])
     @ accepted cs (transact (SubmitRating s now u x) st)"
proof (cases "u \<noteq> 0 \<and> u \<noteq> s")
  case True
  then obtain st' where "submitRating s now u x st = Inr (totalRatings st, st')"
    using submitRating_returns by blast
  then show ?thesis using True by simp
next
  case False
  then show ?thesis
    by (auto split: sum.splits prod.splits dest: submitRating_Inr_valid)
qed

lemma accepted_AuthorizeViewer:
  "accepted (AuthorizeViewer s v # cs) st = accepted cs (transact (AuthorizeViewer s v) st)"
  by (simp split: sum.splits prod.splits)

lemma accepted_RevokeViewer:
  "accepted (RevokeViewer s v # cs) st = accepted cs (transact (RevokeViewer s v) st)"
  by (simp split: sum.splits prod.splits)

lemmas accepted_eval = accepted_SubmitRating accepted_AuthorizeViewer accepted_RevokeViewer

lemma unat_sum_list:
  "sum_list (map unat ss) < 2 ^ 32 \<Longrightarrow> unat (sum_list ss :: 32 word) = sum_list (map unat ss)"
proof (induction ss)
  case Nil
  then show ?case by simp
next
  case (Cons x xs)
  then have "unat (sum_list xs) = sum_list (map unat xs)" by simp
  moreover have "unat (x + sum_list xs) = (unat x + unat (sum_list xs)) mod 2 ^ 32"
    by (simp add: unat_word_ariths)
  ultimately show ?case using Cons.prems by simp
qed

lemma unat_sum_list_mod:
  "unat (sum_list ss :: 32 word) = sum_list (map unat ss) mod 2 ^ 32"
proof (induction ss)
  case Nil
  then show ?case by simp
next
  case (Cons x xs)
  have "unat (x + sum_list xs) = (unat x + unat (sum_list xs)) mod 2 ^ 32"
    by (simp add: unat_word_ariths)
  also have "\<dots> = (unat x + sum_list (map unat xs) mod 2 ^ 32) mod 2 ^ 32"
    by (simp only: Cons.IH)
  also have "\<dots> = (unat x + sum_list (map unat xs)) mod 2 ^ 32"
    by (rule mod_add_right_eq)
  finally show ?case by simp
qed

lemma unat_of_nat_32: "unat (of_nat n :: 32 word) = n mod 2 ^ 32"
  by (simp add: unat_of_nat)

lemma publicCount_transact:
  "publicCount (userScores st u) \<le> publicCount (userScores (transact c st) u)"
proof (cases c st rule: transact_cases)
  case reverted
  then show ?thesis by simp
next
  case (rated s now r x i)
  then show ?thesis
    using submitRating_storage(6,7) [OF rated(2)] by (cases "r = u") simp_all
next
  case (authorized s v)
  then show ?thesis using authorizeViewer_storage(5) [OF authorized(2)] by simp
next
  case (revoked s v)
  then show ?thesis using revokeViewer_storage(2) [OF revoked(2)] by simp
qed

lemma publicCount_run:
  "publicCount (userScores st u) \<le> publicCount (userScores (run cs st) u)"
proof (induction cs arbitrary: st)
  case Nil
  then show ?case by simp
next
  case (Cons c cs)
  show ?case using publicCount_transact [of st u c] Cons.IH [of "transact c st"] by simp
qed

lemma count_index_reachable:
  "\<forall>u. publicCount (userScores (run cs (init self)) u) = length (userRatings (run cs (init self)) u)"
proof (rule run_invariant)
  show "\<forall>u. publicCount (userScores (init self) u) = length (userRatings (init self) u)"
    by (simp add: init_def)
next
  fix c and st :: TrustVault
  assume inv: "\<forall>u. publicCount (userScores st u) = length (userRatings st u)"
  show "\<forall>u. publicCount (userScores (transact c st) u) = length (userRatings (transact c st) u)"
  proof (cases c st rule: transact_cases)
    case reverted
    then show ?thesis using inv by simp
  next
    case (rated s now r x i)
    show ?thesis
    proof
      fix u
      show "publicCount (userScores (transact c st) u) = length (userRatings (transact c st) u)"
        using submitRating_storage(3,6,7) [OF rated(2)] inv by (cases "u = r") simp_all
    qed
  next
    case (authorized s v)
    then show ?thesis
      using authorizeViewer_storage(5,8) [OF authorized(2)] inv by simp
  next
    case (revoked s v)
    then show ?thesis
      using revokeViewer_storage(2,5) [OF revoked(2)] inv by simp
  qed
qed

subsection \<open>The rating index\<close>

lemma index_inv_init: "index_inv [] (init self)"
  by (simp add: index_inv_def init_def)

lemma enumerate_snoc: "enumerate n (xs @ [x]) = enumerate n xs @ [(n + length xs, x)]"
  by (simp add: enumerate_append_eq)

lemma index_inv_step:
  assumes "index_inv rs st"
  shows "index_inv (rs @ map fst (accepted [c] st)) (transact c st)"
proof (cases c st rule: transact_cases)
  case reverted
  then obtain r where "exec c st = Inl r" by blast
  then have "accepted [c] st = []" by (rule accepted_single_reverted)
  then show ?thesis using assms reverted(1) by (simp del: accepted.simps)
next
  case (rated s now r x i)
  have acc: "accepted [c] st = [(r, x)]"
    unfolding rated(1) by (rule accepted_single_rated [OF rated(2)])
  show ?thesis
    unfolding acc
    using assms submitRating_storage(2,3) [OF rated(2)]
    by (auto simp add: index_inv_def enumerate_snoc)
next
  case (authorized s v)
  have "accepted [c] st = []"
    unfolding authorized(1) by (rule accepted_single_authorize)
  then show ?thesis
    using assms authorizeViewer_storage(8,10) [OF authorized(2)]
    by (simp add: index_inv_def del: accepted.simps)
next
  case (revoked s v)
  have "accepted [c] st = []"
    unfolding revoked(1) by (rule accepted_single_revoke)
  then show ?thesis
    using assms revokeViewer_storage(5,7) [OF revoked(2)]
    by (simp add: index_inv_def del: accepted.simps)
qed

lemma index_inv_run:
  "index_inv rs st \<Longrightarrow> index_inv (rs @ map fst (accepted cs st)) (run cs st)"
proof (induction cs arbitrary: rs st)
  case Nil
  then show ?case by simp
next
  case (Cons c cs)
  from Cons.IH [OF index_inv_step [OF Cons.prems, of c]]
  show ?case by (simp add: accepted_Cons [of c cs] del: accepted.simps)
qed

lemma index_inv_reachable:
  "index_inv (map fst (accepted cs (init self))) (run cs (init self))"
  using index_inv_run [OF index_inv_init, of cs self] by simp

lemma userRatings_prefix_transact:
  "\<exists>ys. userRatings (transact c st) u = userRatings st u @ ys"
proof (cases c st rule: transact_cases)
  case reverted
  then show ?thesis by simp
next
  case (rated s now r x i)
  then show ?thesis using submitRating_storage(3) [OF rated(2)] by simp
next
  case (authorized s v)
  then show ?thesis using authorizeViewer_storage(8) [OF authorized(2)] by simp
next
  case (revoked s v)
  then show ?thesis using revokeViewer_storage(5) [OF revoked(2)] by simp
qed

lemma userRatings_prefix_run:
  "\<exists>ys. userRatings (run cs st) u = userRatings st u @ ys"
proof (induction cs arbitrary: st)
  case Nil
  then show ?case by simp
next
  case (Cons c cs)
  obtain ys where 1: "userRatings (transact c st) u = userRatings st u @ ys"
    using userRatings_prefix_transact by blast
  obtain zs where 2: "userRatings (run cs (transact c st)) u = userRatings (transact c st) u @ zs"
    using Cons.IH by blast
  show ?case using 1 2 by simp
qed

lemma enumerate_filter_distinct: "distinct (map fst (filter P (enumerate 0 rs)))"
  by (simp add: distinct_map_filter)

lemma enumerate_filter_member:
  "i \<in> set (map fst (filter (\<lambda>p. snd p = u) (enumerate 0 rs))) \<longleftrightarrow> i < length rs \<and> rs ! i = u"
proof
  assume "i \<in> set (map fst (filter (\<lambda>p. snd p = u) (enumerate 0 rs)))"
  then obtain p where "p \<in> set (enumerate 0 rs)" "snd p = u" "fst p = i" by auto
  then show "i < length rs \<and> rs ! i = u" by (simp add: in_set_enumerate_eq)
next
  assume a: "i < length rs \<and> rs ! i = u"
  then have "(i, u) \<in> set (enumerate 0 rs)" by (simp add: in_set_enumerate_eq)
  then have "(i, u) \<in> set (filter (\<lambda>p. snd p = u) (enumerate 0 rs))" by simp
  then show "i \<in> set (map fst (filter (\<lambda>p. snd p = u) (enumerate 0 rs)))" by force
qed

lemma enumerate_filter_nth:
  "map fst (filter (\<lambda>p. snd p = u) (enumerate 0 (map f xs)))
     = filter (\<lambda>i. f (xs ! i) = u) [0..<length xs]"
proof (induction xs rule: rev_induct)
  case Nil
  then show ?case by simp
next
  case (snoc x xs)
  have "filter (\<lambda>i. f ((xs @ [x]) ! i) = u) [0..<length xs]
      = filter (\<lambda>i. f (xs ! i) = u) [0..<length xs]"
    by (rule filter_cong) (simp_all add: nth_append)
  then show ?case using snoc.IH by (simp add: enumerate_snoc)
qed

subsection \<open>The authorization relation\<close>

lemma authorized_transact:
  assumes "authorizedViewers (userScores st s) v" and "c \<noteq> RevokeViewer s v"
  shows "authorizedViewers (userScores (transact c st) s) v"
proof (cases c st rule: transact_cases)
  case reverted
  then show ?thesis using assms by simp
next
  case (rated a now r x i)
  then show ?thesis
    using assms submitRating_storage(6,8) [OF rated(2)] by (cases "s = r") simp_all
next
  case (authorized a w)
  then show ?thesis using assms authorizeViewer_storage(5) [OF authorized(2)] by auto
next
  case (revoked a w)
  then show ?thesis using assms revokeViewer_storage(2) [OF revoked(2)] by auto
qed

lemma authorized_run:
  assumes "authorizedViewers (userScores st s) v" and "\<forall>c \<in> set cs. c \<noteq> RevokeViewer s v"
  shows "authorizedViewers (userScores (run cs st) s) v"
  using assms
proof (induction cs arbitrary: st)
  case Nil
  then show ?case by simp
next
  case (Cons c cs)
  then show ?case using authorized_transact [of st s v c] by simp
qed

lemma authorized_reachable:
  "\<forall>s v. authorizedViewers (userScores (run cs (init self)) s) v \<longrightarrow>
     v \<noteq> 0 \<and> v \<noteq> s \<and> publicCount (userScores (run cs (init self)) s) \<noteq> 0"
proof (rule run_invariant)
  show "\<forall>s v. authorizedViewers (userScores (init self) s) v \<longrightarrow>
     v \<noteq> 0 \<and> v \<noteq> s \<and> publicCount (userScores (init self) s) \<noteq> 0"
    by (simp add: init_def)
next
  fix c and st :: TrustVault
  assume inv: "\<forall>s v. authorizedViewers (userScores st s) v \<longrightarrow>
     v \<noteq> 0 \<and> v \<noteq> s \<and> publicCount (userScores st s) \<noteq> 0"
  show "\<forall>s v. authorizedViewers (userScores (transact c st) s) v \<longrightarrow>
     v \<noteq> 0 \<and> v \<noteq> s \<and> publicCount (userScores (transact c st) s) \<noteq> 0"
  proof (cases c st rule: transact_cases)
    case reverted
    then show ?thesis using inv by simp
  next
    case (rated a now r x i)
    show ?thesis
    proof (intro allI impI)
      fix s v
      assume "authorizedViewers (userScores (transact c st) s) v"
      then show "v \<noteq> 0 \<and> v \<noteq> s \<and> publicCount (userScores (transact c st) s) \<noteq> 0"
        using submitRating_storage(6,7,8) [OF rated(2)] inv by (cases "s = r") simp_all
    qed
  next
    case (authorized a w)
    show ?thesis
      using authorizeViewer_storage(1,2,3,5) [OF authorized(2)] inv by auto
  next
    case (revoked a w)
    show ?thesis
      using revokeViewer_storage(2) [OF revoked(2)] inv by auto
  qed
qed

section \<open>The claims\<close>

text \<open>
  C3. A rejected operation changes nothing. Whenever \<^verbatim>\<open>submitRating\<close>, \<^verbatim>\<open>authorizeViewer\<close>,
  \<^verbatim>\<open>revokeViewer\<close> or \<^verbatim>\<open>getRating\<close> reverts, the storage the body had reached at the failing
  \<^verbatim>\<open>require\<close> is the storage it was called on: the rating log with its id counter, the
  per-subject aggregates and the authorization relation (and the capability's state and
  the event log with them). The reverted transaction therefore leaves the state as it was.
\<close>

theorem rejected_call_changes_nothing:
  "(submitRating s now u x st = Inl (e, st') \<longrightarrow> st' = st)
   \<and> (authorizeViewer s v st = Inl (e, st') \<longrightarrow> st' = st)
   \<and> (revokeViewer s v st = Inl (e, st') \<longrightarrow> st' = st)
   \<and> (getRating i st = Inl (e, st') \<longrightarrow> st' = st)
   \<and> (exec c st = Inl (e, st') \<longrightarrow> st' = st \<and> transact c st = st)"
  by (auto dest: submitRating_reverts authorizeViewer_reverts revokeViewer_reverts
      getRating_reverts exec_reverts transact_reverted)

theorem rejected_call_changes_nothing_witness:
  "submitRating 1 0 1 5 (init 9) = Inl (Cannot_rate_yourself, init 9)
   \<and> authorizeViewer 1 2 (init 9) = Inl (No_scores_to_authorize, init 9)
   \<and> revokeViewer 1 2 (init 9) = Inl (Viewer_not_authorized, init 9)
   \<and> getRating 0 (init 9) = Inl (Rating_does_not_exist, init 9)
   \<and> exec (RevokeViewer 1 2) (init 9) = Inl (Viewer_not_authorized, init 9)
   \<and> transact (RevokeViewer 1 2) (init 9) = init 9"
proof -
  obtain e1 s1 where a: "submitRating 1 0 1 5 (init 9) = Inl (e1, s1)" and a': "e1 = Cannot_rate_yourself"
    by (simp add: submitRating_def)
  obtain e2 s2 where b: "authorizeViewer 1 2 (init 9) = Inl (e2, s2)" and b': "e2 = No_scores_to_authorize"
    by (simp add: authorizeViewer_def init_def)
  obtain e3 s3 where c: "revokeViewer 1 2 (init 9) = Inl (e3, s3)" and c': "e3 = Viewer_not_authorized"
    by (simp add: revokeViewer_def init_def)
  obtain e4 s4 where d: "getRating 0 (init 9) = Inl (e4, s4)" and d': "e4 = Rating_does_not_exist"
    by (simp add: getRating_def init_def)
  have e: "exec (RevokeViewer 1 2) (init 9) = Inl (e3, s3)"
    using c by simp
  show ?thesis
    using rejected_call_changes_nothing [where s = 1 and now = 0 and u = 1 and x = 5
        and st = "init 9" and e = e1 and st' = s1]
      rejected_call_changes_nothing [where s = 1 and v = 2 and st = "init 9" and e = e2
        and st' = s2]
      rejected_call_changes_nothing [where s = 1 and v = 2 and st = "init 9" and e = e3
        and st' = s3 and c = "RevokeViewer 1 2"]
      rejected_call_changes_nothing [where i = 0 and st = "init 9" and e = e4 and st' = s4]
      a a' b b' c c' d d' e
    by simp
qed

text \<open>
  C4. \<^verbatim>\<open>submitRating\<close> reverts with "Invalid user address" exactly when the rated user is
  the zero address, and with "Cannot rate yourself" exactly when the rated user is the
  sender and not the zero address (the zero check comes first). On every other input it
  returns the id it assigned, which is the value of \<^verbatim>\<open>totalRatings\<close> before the call, and
  has incremented that counter. Whenever it reverts, the storage is unchanged.
\<close>

theorem submitRating_outcome:
  "((\<exists>st'. submitRating s now u x st = Inl (Invalid_user_address, st')) \<longleftrightarrow> u = 0)
   \<and> ((\<exists>st'. submitRating s now u x st = Inl (Cannot_rate_yourself, st')) \<longleftrightarrow> u \<noteq> 0 \<and> u = s)
   \<and> (u \<noteq> 0 \<and> u \<noteq> s \<longrightarrow>
        (\<exists>st'. submitRating s now u x st = Inr (totalRatings st, st')
              \<and> totalRatings st' = totalRatings st + 1))
   \<and> (\<forall>e st'. submitRating s now u x st = Inl (e, st') \<longrightarrow>
        (e = Invalid_user_address \<or> e = Cannot_rate_yourself) \<and> st' = st
        \<and> transact (SubmitRating s now u x) st = st)"
proof -
  have 1: "(\<exists>st'. submitRating s now u x st = Inl (Invalid_user_address, st')) \<longleftrightarrow> u = 0"
    by (auto simp add: submitRating_def Let_def split: if_splits prod.splits)
  have 2: "(\<exists>st'. submitRating s now u x st = Inl (Cannot_rate_yourself, st')) \<longleftrightarrow> u \<noteq> 0 \<and> u = s"
    by (auto simp add: submitRating_def Let_def split: if_splits prod.splits)
  have 3: "\<exists>st'. submitRating s now u x st = Inr (totalRatings st, st')
              \<and> totalRatings st' = totalRatings st + 1" if "u \<noteq> 0" "u \<noteq> s"
  proof -
    from that obtain st' where r: "submitRating s now u x st = Inr (totalRatings st, st')"
      using submitRating_returns by blast
    then show ?thesis using submitRating_storage(2) [OF r] by simp
  qed
  have 4: "(e = Invalid_user_address \<or> e = Cannot_rate_yourself) \<and> st' = st
        \<and> transact (SubmitRating s now u x) st = st"
    if "submitRating s now u x st = Inl (e, st')" for e st'
    using that
    by (auto simp add: submitRating_def Let_def transact_def split: if_splits prod.splits)
  show ?thesis using 1 2 3 4 by blast
qed

theorem submitRating_outcome_witness:
  "(\<exists>st'. submitRating 2 7 1 5 (init 9) = Inr (0, st') \<and> totalRatings st' = 1)
   \<and> submitRating 2 7 0 5 (init 9) = Inl (Invalid_user_address, init 9)
   \<and> submitRating 2 7 2 5 (init 9) = Inl (Cannot_rate_yourself, init 9)
   \<and> transact (SubmitRating 2 7 2 5) (init 9) = init 9"
proof -
  have t: "totalRatings (init 9) = 0" by (simp add: init_def)
  have a: "submitRating 2 7 0 5 (init 9) = Inl (Invalid_user_address, init 9)"
    by (simp add: submitRating_def)
  have b: "submitRating 2 7 2 5 (init 9) = Inl (Cannot_rate_yourself, init 9)"
    by (simp add: submitRating_def)
  show ?thesis
    using submitRating_outcome [where s = 2 and now = 7 and u = 1 and x = 5 and st = "init 9"]
      submitRating_outcome [where s = 2 and now = 7 and u = 2 and x = 5 and st = "init 9"]
      t a b
    by simp
qed

text \<open>
  C7. A user may always view their own score: \<^verbatim>\<open>isAuthorized(x, x)\<close> is true in every
  state, so in particular after any sequence of transactions (submissions, grants,
  revocations, accepted or rejected) from any state.
\<close>

theorem isAuthorized_self: "isAuthorized x x (run cs st)"
  by (simp add: isAuthorized_def)

text \<open>
  C1, as amended. Take any run of transactions from the freshly deployed contract and a
  subject \<open>u\<close>, and let \<open>s1..sN\<close> be the plaintext scores of the submissions for \<open>u\<close> that
  were accepted, in order (the run may hold nothing else, or any other calls in between).
  Then \<^verbatim>\<open>getEncryptedScore(u)\<close> returns \<^verbatim>\<open>publicCount\<close> \<open>= N\<close> and, when \<open>N > 0\<close>, a total
  handle that decrypts to \<open>(s1 + ... + sN) mod 2^32\<close> and a count handle that decrypts to
  \<open>N mod 2^32\<close>: the plaintexts are \<^verbatim>\<open>euint32\<close> values and \<^verbatim>\<open>FHE.add\<close> wraps around. They are
  the exact sum whenever that is below \<open>2^32\<close>, and the exact count whenever \<open>N\<close> is below
  \<open>2^32\<close>.
\<close>

theorem aggregate_of_accepted_scores:
  assumes "getEncryptedScore u (run cs (init self)) = (total_handle, count_handle, n)"
  shows "n = length (scores_for u cs (init self))
    \<and> (scores_for u cs (init self) \<noteq> [] \<longrightarrow>
         (\<exists>t c. decrypt (fhe (run cs (init self))) total_handle = Some t
              \<and> decrypt (fhe (run cs (init self))) count_handle = Some c
              \<and> t = sum_list (scores_for u cs (init self))
              \<and> c = of_nat n
              \<and> unat t = sum_list (map unat (scores_for u cs (init self))) mod 2 ^ 32
              \<and> unat c = n mod 2 ^ 32
              \<and> (sum_list (map unat (scores_for u cs (init self))) < 2 ^ 32 \<longrightarrow>
                   unat t = sum_list (map unat (scores_for u cs (init self))))
              \<and> (n < 2 ^ 32 \<longrightarrow> unat c = n)))"
proof -
  let ?st = "run cs (init self)" and ?ss = "scores_for u cs (init self)"
  have inv: "aggregate_inv u ?ss ?st" by (rule aggregate_inv_reachable)
  have tot: "total_handle = encryptedTotalScore (userScores ?st u)"
    and cnt: "count_handle = encryptedCount (userScores ?st u)"
    and n: "n = publicCount (userScores ?st u)"
    using assms by (simp_all add: getEncryptedScore_def Let_def)
  have len: "n = length ?ss"
    using inv n by (simp add: aggregate_inv_def Let_def)
  have dec: "decrypt (fhe ?st) total_handle = Some (sum_list ?ss)
      \<and> decrypt (fhe ?st) count_handle = Some (of_nat n)" if "?ss \<noteq> []"
    using inv that tot cnt len by (simp add: aggregate_inv_def Let_def decrypt_def)
  have m1: "unat (sum_list ?ss) = sum_list (map unat ?ss) mod 2 ^ 32"
    by (rule unat_sum_list_mod)
  have m2: "unat (of_nat n :: 32 word) = n mod 2 ^ 32"
    by (rule unat_of_nat_32)
  have e1: "sum_list (map unat ?ss) < 2 ^ 32 \<longrightarrow> unat (sum_list ?ss) = sum_list (map unat ?ss)"
    using m1 by simp
  have e2: "n < 2 ^ 32 \<longrightarrow> unat (of_nat n :: 32 word) = n"
    using m2 by simp
  show ?thesis
  proof (intro conjI impI)
    show "n = length ?ss" by (rule len)
  next
    assume ne: "?ss \<noteq> []"
    show "\<exists>t c. decrypt (fhe ?st) total_handle = Some t
              \<and> decrypt (fhe ?st) count_handle = Some c
              \<and> t = sum_list ?ss \<and> c = of_nat n
              \<and> unat t = sum_list (map unat ?ss) mod 2 ^ 32
              \<and> unat c = n mod 2 ^ 32
              \<and> (sum_list (map unat ?ss) < 2 ^ 32 \<longrightarrow> unat t = sum_list (map unat ?ss))
              \<and> (n < 2 ^ 32 \<longrightarrow> unat c = n)"
      using dec [OF ne] m1 m2 e1 e2 by blast
  qed
qed

theorem aggregate_of_accepted_scores_witness:
  "\<exists>total_handle count_handle.
     getEncryptedScore 1 (run [SubmitRating 2 10 1 5, SubmitRating 3 11 1 3] (init 9))
       = (total_handle, count_handle, 2)
     \<and> decrypt (fhe (run [SubmitRating 2 10 1 5, SubmitRating 3 11 1 3] (init 9))) total_handle = Some 8
     \<and> decrypt (fhe (run [SubmitRating 2 10 1 5, SubmitRating 3 11 1 3] (init 9))) count_handle = Some 2"
proof -
  let ?cs = "[SubmitRating 2 10 1 5, SubmitRating 3 11 1 3]"
  obtain total_handle count_handle n where g: "getEncryptedScore 1 (run ?cs (init 9)) = (total_handle, count_handle, n)"
    by (cases "getEncryptedScore 1 (run ?cs (init 9))") auto
  have ss: "scores_for 1 ?cs (init 9) = [5, 3]"
    by (simp add: scores_for_def accepted_eval del: accepted.simps(2))
  show ?thesis
    using aggregate_of_accepted_scores [OF g] g unfolding ss by simp
qed

text \<open>
  C1 as stated fails where the sum leaves the 32-bit range, on scores the contract
  accepts (it makes no range check): Bob (2) rates Alice (1) with 4294967295 and Charlie
  (3) rates her with 2. Both calls are accepted, the scores add up to 4294967297, and the
  total handle decrypts to 1.
\<close>

theorem aggregate_total_wraps_counterexample:
  "scores_for 1 [SubmitRating 2 10 1 4294967295, SubmitRating 3 11 1 2] (init 9)
     = [4294967295, 2]
   \<and> sum_list (map unat
        (scores_for 1 [SubmitRating 2 10 1 4294967295, SubmitRating 3 11 1 2] (init 9)))
     = 4294967297
   \<and> snd (snd (getEncryptedScore 1
        (run [SubmitRating 2 10 1 4294967295, SubmitRating 3 11 1 2] (init 9)))) = 2
   \<and> map_option unat
        (decrypt (fhe (run [SubmitRating 2 10 1 4294967295, SubmitRating 3 11 1 2] (init 9)))
          (fst (getEncryptedScore 1
            (run [SubmitRating 2 10 1 4294967295, SubmitRating 3 11 1 2] (init 9)))))
     = Some 1
   \<and> map_option unat
        (decrypt (fhe (run [SubmitRating 2 10 1 4294967295, SubmitRating 3 11 1 2] (init 9)))
          (fst (getEncryptedScore 1
            (run [SubmitRating 2 10 1 4294967295, SubmitRating 3 11 1 2] (init 9)))))
     \<noteq> Some (sum_list (map unat
        (scores_for 1 [SubmitRating 2 10 1 4294967295, SubmitRating 3 11 1 2] (init 9))))"
proof -
  let ?cs = "[SubmitRating 2 10 1 4294967295, SubmitRating 3 11 1 2]"
  have ss: "scores_for 1 ?cs (init 9) = [4294967295, 2]"
    by (simp add: scores_for_def accepted_eval del: accepted.simps(2))
  have sm: "sum_list (map unat (scores_for 1 ?cs (init 9))) = 4294967297"
    unfolding ss by simp
  have n: "snd (snd (getEncryptedScore 1 (run ?cs (init 9)))) = 2"
    by (simp add: getEncryptedScore_def transact_def submitRating_def init_def Let_def fhe_defs)
  have d: "decrypt (fhe (run ?cs (init 9))) (fst (getEncryptedScore 1 (run ?cs (init 9))))
      = Some 1"
    by (simp add: getEncryptedScore_def decrypt_def transact_def submitRating_def init_def
        Let_def fhe_defs clear_of_def)
  show ?thesis using ss sm n d by simp
qed

text \<open>
  C10. In every state reachable from deployment, and for every subject, the plaintext
  counter \<^verbatim>\<open>publicCount\<close> returned by \<^verbatim>\<open>getEncryptedScore\<close> is the length of the subject's
  rating index returned by \<^verbatim>\<open>getUserRatings\<close>. The states between transactions are all
  the states an observer can see, so the two are never out of step.
\<close>

theorem publicCount_is_index_length:
  "publicCount (userScores (run cs (init self)) u) = length (getUserRatings u (run cs (init self)))
   \<and> snd (snd (getEncryptedScore u (run cs (init self))))
       = length (getUserRatings u (run cs (init self)))"
  using count_index_reachable [of cs self]
  by (simp add: getUserRatings_def getEncryptedScore_def Let_def)

text \<open>
  C8. In every state reachable from deployment and for every subject, \<^verbatim>\<open>publicCount\<close> is
  0 exactly when both handles are the zero (uninitialised) handle, and the two handles
  are absent or present together. A \<^verbatim>\<open>submitRating\<close> for the subject that returns
  increases \<^verbatim>\<open>publicCount\<close> by exactly 1, and no transaction, nor any run of them,
  decreases it.
\<close>

theorem publicCount_zero_iff_no_handles:
  "(publicCount (userScores (run cs (init self)) u) = 0 \<longleftrightarrow>
      encryptedTotalScore (userScores (run cs (init self)) u) = 0
      \<and> encryptedCount (userScores (run cs (init self)) u) = 0)
   \<and> (encryptedTotalScore (userScores (run cs (init self)) u) = 0 \<longleftrightarrow>
      encryptedCount (userScores (run cs (init self)) u) = 0)
   \<and> (\<forall>s now x i st'. submitRating s now u x (run cs (init self)) = Inr (i, st') \<longrightarrow>
        publicCount (userScores st' u) = publicCount (userScores (run cs (init self)) u) + 1)
   \<and> (\<forall>c. publicCount (userScores (run cs (init self)) u)
           \<le> publicCount (userScores (transact c (run cs (init self))) u))
   \<and> (\<forall>ds. publicCount (userScores (run cs (init self)) u)
           \<le> publicCount (userScores (run ds (run cs (init self))) u))"
proof -
  let ?st = "run cs (init self)"
  have inv: "aggregate_inv u (scores_for u cs (init self)) ?st"
    by (rule aggregate_inv_reachable)
  have 1: "publicCount (userScores ?st u) = 0 \<longleftrightarrow>
      encryptedTotalScore (userScores ?st u) = 0 \<and> encryptedCount (userScores ?st u) = 0"
    using inv by (cases "scores_for u cs (init self) = []") (simp_all add: aggregate_inv_def Let_def)
  have 2: "encryptedTotalScore (userScores ?st u) = 0 \<longleftrightarrow> encryptedCount (userScores ?st u) = 0"
    using inv by (cases "scores_for u cs (init self) = []") (simp_all add: aggregate_inv_def Let_def)
  have 3: "publicCount (userScores st' u) = publicCount (userScores ?st u) + 1"
    if "submitRating s now u x ?st = Inr (i, st')" for s now x i st'
    using submitRating_storage(7) [OF that] by simp
  show ?thesis
    using 1 2 3 publicCount_transact [of ?st u] publicCount_run [of ?st u] by blast
qed

theorem publicCount_zero_iff_no_handles_witness:
  "\<exists>st'. submitRating 2 10 1 5 (run [SubmitRating 3 11 1 3] (init 9)) = Inr (1, st')
     \<and> publicCount (userScores st' 1) = 2"
proof -
  let ?st = "run [SubmitRating 3 11 1 3] (init 9)"
  have t: "totalRatings ?st = 1" and p: "publicCount (userScores ?st 1) = 1"
    by (simp_all add: transact_def submitRating_def init_def Let_def fhe_defs)
  obtain st' where r: "submitRating 2 10 1 5 ?st = Inr (totalRatings ?st, st')"
    using submitRating_returns [of 1 2 10 5 ?st] by auto
  show ?thesis
    using publicCount_zero_iff_no_handles [of "[SubmitRating 3 11 1 3]" 9 1] r t p by auto
qed

text \<open>
  C9. Rating ids are assigned globally and sequentially from 0. In every state reachable
  from deployment, \<^verbatim>\<open>totalRatings\<close> is the number of submissions accepted so far, and
  \<^verbatim>\<open>getUserRatings(u)\<close> is the increasing list of the positions, in the global order of
  accepted submissions, of those made for \<open>u\<close>. Hence an id is below \<^verbatim>\<open>totalRatings\<close>,
  occurs once, and in the list of the user it was submitted for only. A \<^verbatim>\<open>submitRating\<close>
  that returns gives back the old \<^verbatim>\<open>totalRatings\<close>, increments it, appends that id to the
  rated user's list and leaves every other list alone; and every transaction, and every
  run of them, only extends a list at its end.
\<close>

theorem rating_ids_sequential:
  "totalRatings (run cs (init self)) = length (accepted cs (init self))
   \<and> getUserRatings u (run cs (init self))
       = filter (\<lambda>i. fst (accepted cs (init self) ! i) = u) [0..<length (accepted cs (init self))]
   \<and> distinct (getUserRatings u (run cs (init self)))
   \<and> (\<forall>i \<in> set (getUserRatings u (run cs (init self))). i < totalRatings (run cs (init self)))
   \<and> (\<forall>w. w \<noteq> u \<longrightarrow>
        set (getUserRatings u (run cs (init self))) \<inter> set (getUserRatings w (run cs (init self))) = {})
   \<and> (\<forall>s now r x i st'. submitRating s now r x (run cs (init self)) = Inr (i, st') \<longrightarrow>
        i = totalRatings (run cs (init self)) \<and> totalRatings st' = i + 1
        \<and> getUserRatings r st' = getUserRatings r (run cs (init self)) @ [i]
        \<and> (\<forall>w. w \<noteq> r \<longrightarrow> getUserRatings w st' = getUserRatings w (run cs (init self))))
   \<and> (\<forall>ds. \<exists>ys. getUserRatings u (run ds (run cs (init self)))
        = getUserRatings u (run cs (init self)) @ ys)"
proof -
  let ?st = "run cs (init self)" and ?rs = "map fst (accepted cs (init self))"
  have inv: "index_inv ?rs ?st" by (rule index_inv_reachable)
  have tot: "totalRatings ?st = length (accepted cs (init self))"
    using inv by (simp add: index_inv_def)
  have idx: "getUserRatings w ?st = map fst (filter (\<lambda>p. snd p = w) (enumerate 0 ?rs))" for w
    using inv by (simp add: index_inv_def getUserRatings_def)
  have flt: "getUserRatings u ?st
      = filter (\<lambda>i. fst (accepted cs (init self) ! i) = u) [0..<length (accepted cs (init self))]"
    unfolding idx by (rule enumerate_filter_nth)
  have dis: "distinct (getUserRatings u ?st)"
    unfolding idx by (rule enumerate_filter_distinct)
  have mem: "i \<in> set (getUserRatings w ?st) \<longleftrightarrow> i < length ?rs \<and> ?rs ! i = w" for i w
    unfolding idx by (rule enumerate_filter_member)
  have bnd: "\<forall>i \<in> set (getUserRatings u ?st). i < totalRatings ?st"
    using mem [of _ u] tot by simp
  have sep: "\<forall>w. w \<noteq> u \<longrightarrow> set (getUserRatings u ?st) \<inter> set (getUserRatings w ?st) = {}"
  proof (intro allI impI)
    fix w assume "w \<noteq> u"
    show "set (getUserRatings u ?st) \<inter> set (getUserRatings w ?st) = {}"
    proof (rule ccontr)
      assume "set (getUserRatings u ?st) \<inter> set (getUserRatings w ?st) \<noteq> {}"
      then obtain i where "i \<in> set (getUserRatings u ?st)" "i \<in> set (getUserRatings w ?st)"
        by blast
      then have "?rs ! i = u" "?rs ! i = w" using mem by blast+
      then show False using \<open>w \<noteq> u\<close> by simp
    qed
  qed
  have sub: "\<forall>s now r x i st'. submitRating s now r x ?st = Inr (i, st') \<longrightarrow>
        i = totalRatings ?st \<and> totalRatings st' = i + 1
        \<and> getUserRatings r st' = getUserRatings r ?st @ [i]
        \<and> (\<forall>w. w \<noteq> r \<longrightarrow> getUserRatings w st' = getUserRatings w ?st)"
  proof (intro allI impI)
    fix s now r x i st'
    assume a: "submitRating s now r x ?st = Inr (i, st')"
    show "i = totalRatings ?st \<and> totalRatings st' = i + 1
        \<and> getUserRatings r st' = getUserRatings r ?st @ [i]
        \<and> (\<forall>w. w \<noteq> r \<longrightarrow> getUserRatings w st' = getUserRatings w ?st)"
      using submitRating_storage(1,2,3) [OF a] by (simp add: getUserRatings_def)
  qed
  have ext: "\<forall>ds. \<exists>ys. getUserRatings u (run ds ?st) = getUserRatings u ?st @ ys"
    unfolding getUserRatings_def using userRatings_prefix_run by blast
  from tot flt dis bnd sep sub ext show ?thesis
    by (intro conjI)
qed

theorem rating_ids_sequential_witness:
  "totalRatings (run [SubmitRating 2 10 1 5, SubmitRating 1 11 1 4, SubmitRating 3 12 2 3,
       SubmitRating 3 13 1 3] (init 9)) = 3
   \<and> getUserRatings 1 (run [SubmitRating 2 10 1 5, SubmitRating 1 11 1 4, SubmitRating 3 12 2 3,
       SubmitRating 3 13 1 3] (init 9)) = [0, 2]
   \<and> (\<exists>st'. submitRating 4 14 2 1 (run [SubmitRating 2 10 1 5, SubmitRating 1 11 1 4,
         SubmitRating 3 12 2 3, SubmitRating 3 13 1 3] (init 9)) = Inr (3, st')
        \<and> getUserRatings 2 st' = [1, 3] \<and> getUserRatings 1 st' = [0, 2])"
proof -
  let ?cs = "[SubmitRating 2 10 1 5, SubmitRating 1 11 1 4, SubmitRating 3 12 2 3,
       SubmitRating 3 13 1 3]"
  have acc: "accepted ?cs (init 9) = [(1, 5), (2, 3), (1, 3)]"
    by (simp add: accepted_eval del: accepted.simps(2))
  have upt3: "[0..<3] = [0, 1, 2]"
    by (simp add: eval_nat_numeral)
  note t1 = rating_ids_sequential [of ?cs 9 1, unfolded acc]
  note t2 = rating_ids_sequential [of ?cs 9 2, unfolded acc]
  have tot: "totalRatings (run ?cs (init 9)) = 3" using t1 by simp
  have u1: "getUserRatings 1 (run ?cs (init 9)) = [0, 2]" using t1 by (simp add: upt3)
  have u2: "getUserRatings 2 (run ?cs (init 9)) = [1]" using t2 by (simp add: upt3)
  obtain st' where r: "submitRating 4 14 2 1 (run ?cs (init 9))
      = Inr (totalRatings (run ?cs (init 9)), st')"
    using submitRating_returns [of 2 4 14 1 "run ?cs (init 9)"] by auto
  have "getUserRatings 2 st' = getUserRatings 2 (run ?cs (init 9)) @ [3]
      \<and> getUserRatings 1 st' = getUserRatings 1 (run ?cs (init 9))"
    using t1 r tot by auto
  then show ?thesis using tot u1 u2 r by simp
qed

text \<open>
  C5. \<^verbatim>\<open>authorizeViewer\<close>, called by the subject, makes its four checks in this order, and
  each reverts with its own reason when its condition holds and none of the earlier ones
  does: "Invalid viewer address" when the viewer is the zero address, "Cannot authorize
  yourself" when the viewer is the caller, "No scores to authorize" when the caller's
  \<^verbatim>\<open>publicCount\<close> is 0, "Viewer already authorized" when the relation is active. It
  returns exactly when none of the four holds; then the relation is active, the viewer is
  allowed on the caller's current total and count handles (which the call does not
  change), and \<^verbatim>\<open>ViewerAuthorized\<close> is the one event emitted. In a state reachable from
  deployment an active relation has passed the first three checks, so there the call
  reverts with "Viewer already authorized" whenever the relation is active.
\<close>

theorem authorizeViewer_outcome:
  "(v = 0 \<longrightarrow> authorizeViewer s v st = Inl (Invalid_viewer_address, st))
   \<and> (v \<noteq> 0 \<and> v = s \<longrightarrow> authorizeViewer s v st = Inl (Cannot_authorize_yourself, st))
   \<and> (v \<noteq> 0 \<and> v \<noteq> s \<and> publicCount (userScores st s) = 0 \<longrightarrow>
        authorizeViewer s v st = Inl (No_scores_to_authorize, st))
   \<and> (v \<noteq> 0 \<and> v \<noteq> s \<and> publicCount (userScores st s) \<noteq> 0
        \<and> authorizedViewers (userScores st s) v \<longrightarrow>
        authorizeViewer s v st = Inl (Viewer_already_authorized, st))
   \<and> (v \<noteq> 0 \<and> v \<noteq> s \<and> publicCount (userScores st s) \<noteq> 0
        \<and> \<not> authorizedViewers (userScores st s) v \<longrightarrow>
        (\<exists>st'. authorizeViewer s v st = Inr ((), st')
           \<and> authorizedViewers (userScores st' s) v
           \<and> isAuthorized s v st'
           \<and> encryptedTotalScore (userScores st' s) = encryptedTotalScore (userScores st s)
           \<and> encryptedCount (userScores st' s) = encryptedCount (userScores st s)
           \<and> isAllowed (fhe st') (encryptedTotalScore (userScores st' s)) v
           \<and> isAllowed (fhe st') (encryptedCount (userScores st' s)) v
           \<and> events st' = events st @ [ViewerAuthorized s v]))
   \<and> (authorizedViewers (userScores (run cs (init self)) s) v \<longrightarrow>
        authorizeViewer s v (run cs (init self))
          = Inl (Viewer_already_authorized, run cs (init self)))"
proof -
  have reach: "authorizeViewer s v (run cs (init self))
      = Inl (Viewer_already_authorized, run cs (init self))"
    if "authorizedViewers (userScores (run cs (init self)) s) v"
    using that authorized_reachable [of cs self]
    by (simp add: authorizeViewer_def Let_def)
  show ?thesis
    using reach
    by (simp add: authorizeViewer_def Let_def isAuthorized_def isAllowed_def FHE_allow_def)
qed

theorem authorizeViewer_outcome_witness:
  "authorizeViewer 1 0 (init 9) = Inl (Invalid_viewer_address, init 9)
   \<and> authorizeViewer 1 1 (init 9) = Inl (Cannot_authorize_yourself, init 9)
   \<and> authorizeViewer 1 4 (init 9) = Inl (No_scores_to_authorize, init 9)
   \<and> (\<exists>st'. authorizeViewer 1 4 (run [SubmitRating 2 10 1 5] (init 9)) = Inr ((), st')
        \<and> isAuthorized 1 4 st'
        \<and> isAllowed (fhe st') (encryptedTotalScore (userScores st' 1)) 4
        \<and> isAllowed (fhe st') (encryptedCount (userScores st' 1)) 4
        \<and> authorizeViewer 1 4 st' = Inl (Viewer_already_authorized, st'))"
proof -
  let ?st = "run [SubmitRating 2 10 1 5] (init 9)"
  have p0: "publicCount (userScores (init 9) 1) = 0" by (simp add: init_def)
  have p1: "publicCount (userScores ?st 1) \<noteq> 0" "\<not> authorizedViewers (userScores ?st 1) 4"
    by (simp_all add: transact_def submitRating_def init_def Let_def fhe_defs)
  obtain st' where r: "authorizeViewer 1 4 ?st = Inr ((), st')"
      "authorizedViewers (userScores st' 1) 4" "isAuthorized 1 4 st'"
      "isAllowed (fhe st') (encryptedTotalScore (userScores st' 1)) 4"
      "isAllowed (fhe st') (encryptedCount (userScores st' 1)) 4"
    using authorizeViewer_outcome [of 4 1 ?st] p1 by auto
  have p2: "publicCount (userScores st' 1) \<noteq> 0"
    using authorizeViewer_storage(5) [OF r(1)] p1 by simp
  show ?thesis
    using authorizeViewer_outcome [of 0 1 "init 9"] authorizeViewer_outcome [of 1 1 "init 9"]
      authorizeViewer_outcome [of 4 1 "init 9"] authorizeViewer_outcome [of 4 1 st']
      p0 p2 r
    by auto
qed

text \<open>
  C6. When the subject \<open>s\<close> grants \<open>v\<close> successfully, \<open>v\<close> is not \<open>s\<close> and
  \<^verbatim>\<open>isAuthorized(s, v)\<close> is true afterwards, and stays true, with every further grant
  reverting with "Viewer already authorized", through any transactions other than a
  \<^verbatim>\<open>revokeViewer(v)\<close> by \<open>s\<close>. A revoke then succeeds, after which \<^verbatim>\<open>isAuthorized(s, v)\<close> is
  false; indeed after any successful revoke with \<open>v\<close> distinct from \<open>s\<close>. A revoke in a
  state where the relation is not active reverts with "Viewer not authorized".
\<close>

theorem grant_revoke_round_trip:
  "(authorizeViewer s v st = Inr ((), st1) \<longrightarrow>
      v \<noteq> s \<and> isAuthorized s v st1
      \<and> authorizeViewer s v st1 = Inl (Viewer_already_authorized, st1)
      \<and> (\<forall>cs. (\<forall>c \<in> set cs. c \<noteq> RevokeViewer s v) \<longrightarrow>
            isAuthorized s v (run cs st1)
            \<and> authorizeViewer s v (run cs st1) = Inl (Viewer_already_authorized, run cs st1))
      \<and> (\<exists>st2. revokeViewer s v st1 = Inr ((), st2) \<and> \<not> isAuthorized s v st2
            \<and> revokeViewer s v st2 = Inl (Viewer_not_authorized, st2)))
   \<and> (v \<noteq> s \<and> revokeViewer s v st = Inr ((), st1) \<longrightarrow>
        isAuthorized s v st \<and> \<not> isAuthorized s v st1)
   \<and> (\<not> authorizedViewers (userScores st s) v \<longrightarrow>
        revokeViewer s v st = Inl (Viewer_not_authorized, st))
   \<and> revokeViewer s v (init self) = Inl (Viewer_not_authorized, init self)"
proof -
  have 1: "v \<noteq> s \<and> isAuthorized s v st1
      \<and> authorizeViewer s v st1 = Inl (Viewer_already_authorized, st1)
      \<and> (\<forall>cs. (\<forall>c \<in> set cs. c \<noteq> RevokeViewer s v) \<longrightarrow>
            isAuthorized s v (run cs st1)
            \<and> authorizeViewer s v (run cs st1) = Inl (Viewer_already_authorized, run cs st1))
      \<and> (\<exists>st2. revokeViewer s v st1 = Inr ((), st2) \<and> \<not> isAuthorized s v st2
            \<and> revokeViewer s v st2 = Inl (Viewer_not_authorized, st2))"
    if g: "authorizeViewer s v st = Inr ((), st1)"
  proof -
    note f = authorizeViewer_storage [OF g]
    have act: "authorizedViewers (userScores st1 s) v" using f(5) by simp
    have pc: "publicCount (userScores st1 s) \<noteq> 0" using f(3,5) by simp
    have again: "authorizeViewer s v st' = Inl (Viewer_already_authorized, st')"
      if "authorizedViewers (userScores st' s) v" "publicCount (userScores st' s) \<noteq> 0" for st'
      using that f(1,2) by (simp add: authorizeViewer_def Let_def)
    have later: "isAuthorized s v (run cs st1)
        \<and> authorizeViewer s v (run cs st1) = Inl (Viewer_already_authorized, run cs st1)"
      if "\<forall>c \<in> set cs. c \<noteq> RevokeViewer s v" for cs
    proof -
      have a: "authorizedViewers (userScores (run cs st1) s) v"
        using authorized_run [OF act that] .
      have "publicCount (userScores st1 s) \<le> publicCount (userScores (run cs st1) s)"
        by (rule publicCount_run)
      then have "publicCount (userScores (run cs st1) s) \<noteq> 0" using pc by simp
      then show ?thesis using a again by (simp add: isAuthorized_def)
    qed
    have rev: "\<exists>st2. revokeViewer s v st1 = Inr ((), st2) \<and> \<not> isAuthorized s v st2
            \<and> revokeViewer s v st2 = Inl (Viewer_not_authorized, st2)"
      using act f(2) by (simp add: revokeViewer_def Let_def isAuthorized_def)
    show ?thesis
      using f(2) act again [OF act pc] later rev by (simp add: isAuthorized_def)
  qed
  have 2: "isAuthorized s v st \<and> \<not> isAuthorized s v st1"
    if "v \<noteq> s" "revokeViewer s v st = Inr ((), st1)"
    using that revokeViewer_storage(1,2) [OF that(2)] by (simp add: isAuthorized_def)
  have 3: "revokeViewer s v st = Inl (Viewer_not_authorized, st)"
    if "\<not> authorizedViewers (userScores st s) v"
    using that by (simp add: revokeViewer_def Let_def)
  have 4: "revokeViewer s v (init self) = Inl (Viewer_not_authorized, init self)"
    by (simp add: revokeViewer_def Let_def init_def)
  show ?thesis using 1 2 3 4 by blast
qed

theorem grant_revoke_round_trip_witness:
  "\<exists>st1 st2. authorizeViewer 1 4 (run [SubmitRating 2 10 1 5] (init 9)) = Inr ((), st1)
     \<and> isAuthorized 1 4 st1
     \<and> authorizeViewer 1 4 st1 = Inl (Viewer_already_authorized, st1)
     \<and> isAuthorized 1 4 (run [SubmitRating 3 11 1 3, RevokeViewer 1 2] st1)
     \<and> revokeViewer 1 4 st1 = Inr ((), st2)
     \<and> \<not> isAuthorized 1 4 st2
     \<and> revokeViewer 1 4 st2 = Inl (Viewer_not_authorized, st2)"
proof -
  let ?st = "run [SubmitRating 2 10 1 5] (init 9)"
  have "publicCount (userScores ?st 1) \<noteq> 0" "\<not> authorizedViewers (userScores ?st 1) 4"
    by (simp_all add: transact_def submitRating_def init_def Let_def fhe_defs)
  then obtain st1 where g: "authorizeViewer 1 4 ?st = Inr ((), st1)"
    by (simp add: authorizeViewer_def Let_def)
  have n: "\<forall>c \<in> set [SubmitRating 3 11 1 3, RevokeViewer 1 2]. c \<noteq> RevokeViewer 1 4"
    by simp
  show ?thesis
    using grant_revoke_round_trip [of 1 4 ?st st1] g n by blast
qed

text \<open>
  C2. The claim asks that every fold re-establishes the decryption grants on the new
  handles for the contract, the subject and every currently authorized viewer. The code
  does so for the contract and the subject only. Bob (2) rates Alice (1); Alice
  authorizes Dave (4); Charlie (3) rates Alice. Afterwards Dave is still an authorized
  viewer of Alice, the contract (9) and Alice are allowed on both of Alice's current
  handles, and Dave is allowed on neither.
\<close>

theorem viewer_not_allowed_on_refreshed_handles:
  "isAuthorized 1 4
     (run [SubmitRating 2 10 1 5, AuthorizeViewer 1 4, SubmitRating 3 11 1 3] (init 9))
   \<and> isAllowed
        (fhe (run [SubmitRating 2 10 1 5, AuthorizeViewer 1 4, SubmitRating 3 11 1 3] (init 9)))
        (encryptedTotalScore (userScores
          (run [SubmitRating 2 10 1 5, AuthorizeViewer 1 4, SubmitRating 3 11 1 3] (init 9)) 1)) 9
   \<and> isAllowed
        (fhe (run [SubmitRating 2 10 1 5, AuthorizeViewer 1 4, SubmitRating 3 11 1 3] (init 9)))
        (encryptedCount (userScores
          (run [SubmitRating 2 10 1 5, AuthorizeViewer 1 4, SubmitRating 3 11 1 3] (init 9)) 1)) 9
   \<and> isAllowed
        (fhe (run [SubmitRating 2 10 1 5, AuthorizeViewer 1 4, SubmitRating 3 11 1 3] (init 9)))
        (encryptedTotalScore (userScores
          (run [SubmitRating 2 10 1 5, AuthorizeViewer 1 4, SubmitRating 3 11 1 3] (init 9)) 1)) 1
   \<and> isAllowed
        (fhe (run [SubmitRating 2 10 1 5, AuthorizeViewer 1 4, SubmitRating 3 11 1 3] (init 9)))
        (encryptedCount (userScores
          (run [SubmitRating 2 10 1 5, AuthorizeViewer 1 4, SubmitRating 3 11 1 3] (init 9)) 1)) 1
   \<and> \<not> isAllowed
        (fhe (run [SubmitRating 2 10 1 5, AuthorizeViewer 1 4, SubmitRating 3 11 1 3] (init 9)))
        (encryptedTotalScore (userScores
          (run [SubmitRating 2 10 1 5, AuthorizeViewer 1 4, SubmitRating 3 11 1 3] (init 9)) 1)) 4
   \<and> \<not> isAllowed
        (fhe (run [SubmitRating 2 10 1 5, AuthorizeViewer 1 4, SubmitRating 3 11 1 3] (init 9)))
        (encryptedCount (userScores
          (run [SubmitRating 2 10 1 5, AuthorizeViewer 1 4, SubmitRating 3 11 1 3] (init 9)) 1)) 4"
  by (simp add: transact_def submitRating_def authorizeViewer_def init_def Let_def fhe_defs
      isAuthorized_def isAllowed_def)

end
